theory Spec2Isabelle
  imports Main "HOL-Library.Word" "HOL-Library.Multiset" "HOL-Library.Sublist"
begin

section \<open>The audio callback of \<open>AudioEngine\<close>\<close>

text \<open>
  The source is one class, \<open>AudioEngine\<close>, in \<open>audio_processor.cpp\<close>:
  \<^verbatim>\<open>
  class AudioEngine : public oboe::AudioStreamCallback {
  public:
      oboe::DataCallbackResult onAudioReady(
          oboe::AudioStream *audioStream,
          void *audioData,
          int32_t numFrames) override {
          processAudio(static_cast<float*>(audioData), numFrames);
          return oboe::DataCallbackResult::Continue;
      }
  private:
      void processAudio(float* data, int32_t frames);
      void compressAudio(float* inputBuffer, uint8_t* outputBuffer);
      void decompressAudio(uint8_t* inputBuffer, float* outputBuffer);
  };
  \<close>
  The class has no data member. Only \<open>onAudioReady\<close> has a body; \<open>processAudio\<close>,
  \<open>compressAudio\<close> and \<open>decompressAudio\<close> are declared and never defined.
\<close>

subsection \<open>Data\<close>

text \<open>
  \<open>oboe::DataCallbackResult\<close> is the two-valued signal a data callback hands back to the
  driver.
\<close>

datatype DataCallbackResult = Continue | Stop

text \<open>
  Pointers are addresses tagged with the type they point to; the address type \<open>'a\<close> is
  left open (the width of a pointer depends on the ABI the library is built for).
  \<open>int32_t\<close> is a 32-bit word.
\<close>

datatype 'a AudioStream_ptr = AudioStreamPtr 'a

datatype 'a void_ptr = VoidPtr 'a

datatype 'a float_ptr = FloatPtr 'a

type_synonym int32_t = "32 word"

text \<open>
  \<open>static_cast<float*>\<close> of a \<open>void*\<close> keeps the address and changes the pointee type.
\<close>

fun static_cast_float :: "'a void_ptr \<Rightarrow> 'a float_ptr" where
  "static_cast_float (VoidPtr a) = FloatPtr a"

text \<open>
  How a call ends. A C++ function that is not \<open>noexcept\<close> may return, throw, or never
  come back; the state it leaves behind is kept in each case.
\<close>

datatype ('r, 'e) outcome = Returned 'r | Thrown 'e | Diverged

text \<open>
  \<open>processAudio\<close> has no body in the repository, so it is a parameter of the model: any
  function from the float pointer, the frame count and the state of the process (type \<open>'st\<close>:
  whatever memory the body would read and write, the audio buffer included) to an outcome and
  the state afterwards.
\<close>

type_synonym ('a, 'e, 'st) processAudio_fn =
  "'a float_ptr \<Rightarrow> int32_t \<Rightarrow> 'st \<Rightarrow> (unit, 'e) outcome \<times> 'st"

subsection \<open>\<open>onAudioReady\<close>\<close>

text \<open>
  The body is two statements: the call of \<open>processAudio\<close>, then \<open>return Continue\<close>. There
  is no handler around the call, so an exception thrown in \<open>processAudio\<close> leaves
  \<open>onAudioReady\<close> as it is, and the \<open>return\<close> is reached only when the call returns.
\<close>

definition onAudioReady ::
  "('a, 'e, 'st) processAudio_fn \<Rightarrow> 'a AudioStream_ptr \<Rightarrow> 'a void_ptr \<Rightarrow> int32_t \<Rightarrow> 'st
     \<Rightarrow> (DataCallbackResult, 'e) outcome \<times> 'st" where
  "onAudioReady processAudio audioStream audioData numFrames st =
     (case processAudio (static_cast_float audioData) numFrames st of
        (Returned u, st') \<Rightarrow> (Returned Continue, st')
      | (Thrown e, st') \<Rightarrow> (Thrown e, st')
      | (Diverged, st') \<Rightarrow> (Diverged, st'))"

text \<open>
  To observe the calls of \<open>processAudio\<close> that a run makes, the parameter is wrapped: the
  wrapped function appends its arguments to a log kept beside the state, and otherwise does
  what the function it wraps does.
\<close>

type_synonym 'a processAudio_call = "'a float_ptr \<times> int32_t"

definition recording ::
  "('a, 'e, 'st) processAudio_fn \<Rightarrow> ('a, 'e, 'a processAudio_call list \<times> 'st) processAudio_fn" where
  "recording processAudio data frames =
     (\<lambda>(calls, st). case processAudio data frames st of
        (out, st') \<Rightarrow> (out, (calls @ [(data, frames)], st')))"

section \<open>The frame relay\<close>

text \<open>
  The source has no relay: the class has no data member and no queue type is declared. The
  relay below follows section 4.2 of the specification, sequentially: one operation at a
  time, as a single producer and a single consumer see it when each operation takes effect
  at one instant.
\<close>

text \<open>
  Modelled from the spec: the frame relay, which the source does not contain. "Bounded
  queue of frame buffers ... capacity fixed at construction" (4.2): the capacity and the
  buffers held, oldest first. The buffer type \<open>'b\<close> is left open.
\<close>

record 'b relay =
  capacity :: nat
  slots :: "'b list"

text \<open>
  Modelled from the spec: construction of the relay, which the source does not contain.
  "Capacity fixed at construction" (4.2); a new relay holds nothing.
\<close>

definition newRelay :: "nat \<Rightarrow> 'b relay" where
  "newRelay c = \<lparr>capacity = c, slots = []\<rparr>"

text \<open>
  Modelled from the spec: \<open>tryPush(buffer) -> bool\<close> (4.2), which the source does not
  contain. Below capacity the buffer is put behind the ones held and the answer is true;
  at capacity ("failure to enqueue (relay full)", 4.1; "never block") the answer is false
  and the relay is left as it was. What becomes of the refused buffer is the caller's
  overflow policy, which the spec leaves open.
\<close>

definition tryPush :: "'b \<Rightarrow> 'b relay \<Rightarrow> bool \<times> 'b relay" where
  "tryPush b r =
     (if length (slots r) < capacity r then (True, r\<lparr>slots := slots r @ [b]\<rparr>)
      else (False, r))"

text \<open>
  Modelled from the spec: \<open>tryPop() -> optional<buffer>\<close> (4.2), which the source does
  not contain. The buffer held longest is taken out and returned; an empty relay answers
  with the empty optional and stays as it was.
\<close>

definition tryPop :: "'b relay \<Rightarrow> 'b option \<times> 'b relay" where
  "tryPop r =
     (case slots r of
        [] \<Rightarrow> (None, r)
      | b # bs \<Rightarrow> (Some b, r\<lparr>slots := bs\<rparr>))"

text \<open>
  Modelled from the spec: "sequences of pushes/pops" (section 8), which the source does
  not contain. An operation is a push of a buffer or a pop; running a sequence records,
  for every operation, what it answered.
\<close>

datatype 'b relay_op = Push 'b | Pop

datatype 'b relay_event = PushResult 'b bool | PopResult "'b option"

fun run_relay :: "'b relay \<Rightarrow> 'b relay_op list \<Rightarrow> 'b relay_event list \<times> 'b relay" where
  "run_relay r [] = ([], r)"
| "run_relay r (Push b # ops) =
     (case tryPush b r of (ok, r') \<Rightarrow>
        (case run_relay r' ops of (evs, r'') \<Rightarrow> (PushResult b ok # evs, r'')))"
| "run_relay r (Pop # ops) =
     (case tryPop r of (res, r') \<Rightarrow>
        (case run_relay r' ops of (evs, r'') \<Rightarrow> (PopResult res # evs, r'')))"

text \<open>The buffers handed to \<open>tryPush\<close>, in order.\<close>

fun pushed :: "'b relay_op list \<Rightarrow> 'b list" where
  "pushed [] = []"
| "pushed (Push b # ops) = b # pushed ops"
| "pushed (Pop # ops) = pushed ops"

text \<open>The buffers whose \<open>tryPush\<close> answered true, and those it answered false for.\<close>

fun enqueued :: "'b relay_event list \<Rightarrow> 'b list" where
  "enqueued [] = []"
| "enqueued (PushResult b ok # evs) = (if ok then b # enqueued evs else enqueued evs)"
| "enqueued (PopResult res # evs) = enqueued evs"

fun refused :: "'b relay_event list \<Rightarrow> 'b list" where
  "refused [] = []"
| "refused (PushResult b ok # evs) = (if ok then refused evs else b # refused evs)"
| "refused (PopResult res # evs) = refused evs"

text \<open>The buffers that \<open>tryPop\<close> returned, in order.\<close>

fun popped :: "'b relay_event list \<Rightarrow> 'b list" where
  "popped [] = []"
| "popped (PushResult b ok # evs) = popped evs"
| "popped (PopResult None # evs) = popped evs"
| "popped (PopResult (Some b) # evs) = b # popped evs"

text \<open>
  The buffers pushed while the relay was at capacity. This follows the fill level of the
  relay through the sequence and does not look at what \<open>tryPush\<close> answered.
\<close>

fun overflowing :: "'b relay \<Rightarrow> 'b relay_op list \<Rightarrow> 'b list" where
  "overflowing r [] = []"
| "overflowing r (Push b # ops) =
     (if capacity r \<le> length (slots r) then b # overflowing (snd (tryPush b r)) ops
      else overflowing (snd (tryPush b r)) ops)"
| "overflowing r (Pop # ops) = overflowing (snd (tryPop r)) ops"

section \<open>Properties of the callback\<close>

lemma onAudioReady_state:
  "snd (onAudioReady pa strm d n st) = snd (pa (static_cast_float d) n st)"
  by (simp add: onAudioReady_def split: prod.splits outcome.splits)

lemma onAudioReady_Returned:
  "(fst (onAudioReady pa strm d n st) = Returned r) =
     (r = Continue \<and> fst (pa (static_cast_float d) n st) = Returned ())"
  by (auto simp: onAudioReady_def split: prod.splits outcome.splits)

lemma onAudioReady_Thrown:
  "(fst (onAudioReady pa strm d n st) = Thrown e) =
     (fst (pa (static_cast_float d) n st) = Thrown e)"
  by (auto simp: onAudioReady_def split: prod.splits outcome.splits)

lemma onAudioReady_Diverged:
  "(fst (onAudioReady pa strm d n st) = Diverged) =
     (fst (pa (static_cast_float d) n st) = Diverged)"
  by (auto simp: onAudioReady_def split: prod.splits outcome.splits)

lemma recording_log:
  "fst (snd (recording pa p n (calls, st))) = calls @ [(p, n)]"
  by (simp add: recording_def split: prod.splits)

lemma recording_state:
  "snd (snd (recording pa p n (calls, st))) = snd (pa p n st)"
  by (simp add: recording_def split: prod.splits)

lemma recording_outcome:
  "fst (recording pa p n (calls, st)) = fst (pa p n st)"
  by (simp add: recording_def split: prod.splits)

text \<open>
  Claim C9. For every \<open>audioStream\<close>, \<open>audioData\<close> and \<open>numFrames\<close> (and every body of
  \<open>processAudio\<close> and every state), the value \<open>onAudioReady\<close> returns is \<open>Continue\<close>: it
  never returns \<open>Stop\<close>, whatever it returns is \<open>Continue\<close>, and it returns \<open>Continue\<close>
  exactly when its call of \<open>processAudio\<close> returns.
\<close>

theorem onAudioReady_returns_Continue:
  "fst (onAudioReady pa strm d n st) \<noteq> Returned Stop \<and>
   (fst (onAudioReady pa strm d n st) = Returned r) =
     (r = Continue \<and> fst (pa (static_cast_float d) n st) = Returned ())"
  by (simp add: onAudioReady_Returned)

text \<open>
  Claim C10. For every invocation, \<open>onAudioReady\<close> calls \<open>processAudio\<close> exactly once: the
  log of calls grows by one entry, which is \<open>audioData\<close> with the same address as a float
  pointer, and \<open>numFrames\<close> unchanged. The state it leaves is the state that one call
  leaves, and the \<open>audioStream\<close> argument changes neither the call nor the result.
\<close>

theorem onAudioReady_calls_processAudio_once:
  "fst (snd (onAudioReady (recording pa) strm (VoidPtr a) n (calls, st))) = calls @ [(FloatPtr a, n)] \<and>
   snd (snd (onAudioReady (recording pa) strm (VoidPtr a) n (calls, st))) = snd (pa (FloatPtr a) n st) \<and>
   onAudioReady (recording pa) strm (VoidPtr a) n (calls, st) =
     onAudioReady (recording pa) strm' (VoidPtr a) n (calls, st) \<and>
   onAudioReady pa strm (VoidPtr a) n st = onAudioReady pa strm' (VoidPtr a) n st"
  by (simp add: onAudioReady_state recording_log recording_state) (simp add: onAudioReady_def)

text \<open>
  The callback has no handler of its own: it ends the way its call of \<open>processAudio\<close>
  ends. Two bodies one could give \<open>processAudio\<close> show both ways; here the state is a
  counter of the frames seen.
\<close>

lemma onAudioReady_example_returns:
  "onAudioReady (\<lambda>p n st. (Returned (), st + unat n)) (AudioStreamPtr (0::nat)) (VoidPtr 4096) 192 (0::nat)
     = (Returned Continue, 192)"
  by (simp add: onAudioReady_def)

lemma onAudioReady_example_throws:
  "onAudioReady (\<lambda>p n st. (Thrown ''bad_alloc'', st)) (AudioStreamPtr (0::nat)) (VoidPtr 4096) 192 (0::nat)
     = (Thrown ''bad_alloc'', 0)"
  by (simp add: onAudioReady_def)

lemma onAudioReady_example_log:
  "onAudioReady (recording (\<lambda>p n st. (Returned (), st + unat n)))
       (AudioStreamPtr (0::nat)) (VoidPtr 4096) 192 ([], 0::nat)
     = (Returned Continue, ([(FloatPtr 4096, 192)], 192))"
  by (simp add: onAudioReady_def recording_def)

section \<open>Properties of the relay\<close>

lemma tryPush_capacity: "capacity (snd (tryPush b r)) = capacity r"
  by (simp add: tryPush_def)

lemma tryPop_capacity: "capacity (snd (tryPop r)) = capacity r"
  by (simp add: tryPop_def split: list.splits)

lemma tryPush_answer: "fst (tryPush b r) = (length (slots r) < capacity r)"
  by (simp add: tryPush_def)

lemma tryPush_slots:
  "slots (snd (tryPush b r)) = (if fst (tryPush b r) then slots r @ [b] else slots r)"
  by (simp add: tryPush_def)

lemma tryPop_slots:
  "slots r = (case fst (tryPop r) of None \<Rightarrow> [] | Some b \<Rightarrow> [b]) @ slots (snd (tryPop r))"
  by (simp add: tryPop_def split: list.splits)

lemma tryPush_bounded:
  "length (slots r) \<le> capacity r \<Longrightarrow> length (slots (snd (tryPush b r))) \<le> capacity r"
  by (simp add: tryPush_def)

lemma tryPop_bounded:
  "length (slots r) \<le> capacity r \<Longrightarrow> length (slots (snd (tryPop r))) \<le> capacity r"
  by (auto simp: tryPop_def split: list.splits)

text \<open>The relay never holds more than its capacity.\<close>

lemma run_relay_bounded:
  "length (slots r) \<le> capacity r \<Longrightarrow>
   length (slots (snd (run_relay r ops))) \<le> capacity (snd (run_relay r ops)) \<and>
   capacity (snd (run_relay r ops)) = capacity r"
proof (induction ops arbitrary: r)
  case Nil
  then show ?case by simp
next
  case (Cons op ops)
  show ?case
  proof (cases op)
    case (Push b)
    have "length (slots (snd (tryPush b r))) \<le> capacity (snd (tryPush b r))"
      using Cons.prems by (simp add: tryPush_bounded tryPush_capacity)
    from Cons.IH [OF this] show ?thesis
      using Push by (simp add: tryPush_capacity split_beta)
  next
    case Pop
    have "length (slots (snd (tryPop r))) \<le> capacity (snd (tryPop r))"
      using Cons.prems by (simp add: tryPop_bounded tryPop_capacity)
    from Cons.IH [OF this] show ?thesis
      using Pop by (simp add: tryPop_capacity split_beta)
  qed
qed

text \<open>
  What was held at the start followed by what was enqueued is what was popped followed by
  what is still held: nothing enqueued disappears, and the order is kept.
\<close>

lemma run_relay_fifo:
  "popped (fst (run_relay r ops)) @ slots (snd (run_relay r ops)) =
     slots r @ enqueued (fst (run_relay r ops))"
proof (induction ops arbitrary: r)
  case Nil
  show ?case by simp
next
  case (Cons op ops)
  show ?case
  proof (cases op)
    case (Push b)
    show ?thesis
      using Cons.IH [of "snd (tryPush b r)"] Push
      by (simp add: tryPush_slots split_beta)
  next
    case Pop
    show ?thesis
      using Cons.IH [of "snd (tryPop r)"] Pop tryPop_slots [of r]
      by (cases "fst (tryPop r)") (simp_all add: split_beta)
  qed
qed

lemma run_relay_refused: "refused (fst (run_relay r ops)) = overflowing r ops"
proof (induction ops arbitrary: r)
  case Nil
  show ?case by simp
next
  case (Cons op ops)
  show ?case
    using Cons.IH [of "snd (tryPush b r)" for b] Cons.IH [of "snd (tryPop r)"]
    by (cases op) (simp_all add: tryPush_answer split_beta)
qed

lemma run_relay_pushed_mset:
  "mset (pushed ops) = mset (enqueued (fst (run_relay r ops))) + mset (refused (fst (run_relay r ops)))"
proof (induction ops arbitrary: r)
  case Nil
  show ?case by simp
next
  case (Cons op ops)
  show ?case
    using Cons.IH [of "snd (tryPush b r)" for b] Cons.IH [of "snd (tryPop r)"]
    by (cases op) (simp_all add: split_beta)
qed

lemma run_relay_enqueued_subseq: "subseq (enqueued (fst (run_relay r ops))) (pushed ops)"
proof (induction ops arbitrary: r)
  case Nil
  show ?case by simp
next
  case (Cons op ops)
  show ?case
    using Cons.IH [of "snd (tryPush b r)" for b] Cons.IH [of "snd (tryPop r)"]
    by (cases op) (auto simp: split_beta)
qed

lemma run_relay_no_overflow:
  assumes "overflowing r ops = []"
  shows "popped (fst (run_relay r ops)) @ slots (snd (run_relay r ops)) = slots r @ pushed ops"
proof -
  have "size (mset (pushed ops)) = size (mset (enqueued (fst (run_relay r ops))))"
    using run_relay_pushed_mset [of ops r] run_relay_refused [of r ops] assms by simp
  then have "length (enqueued (fst (run_relay r ops))) = length (pushed ops)"
    by simp
  with run_relay_enqueued_subseq [of r ops]
  have "enqueued (fst (run_relay r ops)) = pushed ops"
    by (rule subseq_same_length)
  with run_relay_fifo [of r ops] show ?thesis by simp
qed

lemma tryPop_oldest:
  assumes "popped evs @ slots r = enqueued evs"
  shows "fst (tryPop r) =
     (if length (popped evs) < length (enqueued evs)
      then Some (enqueued evs ! length (popped evs)) else None)"
proof (cases "slots r")
  case Nil
  with assms have "length (popped evs) = length (enqueued evs)" by simp
  with Nil show ?thesis by (simp add: tryPop_def)
next
  case (Cons b bs)
  with assms have e: "enqueued evs = popped evs @ b # bs" by simp
  then have "length (popped evs) < length (enqueued evs)" by simp
  moreover from e have "enqueued evs ! length (popped evs) = b" by simp
  ultimately show ?thesis using Cons by (simp add: tryPop_def)
qed

lemma relay_example:
  "run_relay (newRelay 2) [Push (1::nat), Push 2, Push 3, Pop, Push 4, Pop, Pop, Pop] =
     ([PushResult 1 True, PushResult 2 True, PushResult 3 False, PopResult (Some 1),
       PushResult 4 True, PopResult (Some 2), PopResult (Some 4), PopResult None],
      newRelay 2)"
  by (simp add: newRelay_def tryPush_def tryPop_def)

lemma relay_example_overflowing:
  "overflowing (newRelay 2) [Push (1::nat), Push 2, Push 3, Pop, Push 4, Pop, Pop, Pop] = [3]"
  by (simp add: newRelay_def tryPush_def tryPop_def)

text \<open>
  Claim C4. For every sequence of \<open>tryPush\<close> and \<open>tryPop\<close> operations, from any relay:
  the buffers popped, followed by those still held, are the buffers held at the start
  followed by those enqueued, in the same order (from a new relay: popped and held are
  exactly the enqueued ones); the enqueued buffers are the pushed ones in their order,
  without the refused ones; and the refused ones are exactly those pushed while the relay
  was at capacity.
\<close>

theorem relay_fifo_no_loss:
  "popped (fst (run_relay r ops)) @ slots (snd (run_relay r ops)) =
     slots r @ enqueued (fst (run_relay r ops)) \<and>
   popped (fst (run_relay (newRelay c) ops)) @ slots (snd (run_relay (newRelay c) ops)) =
     enqueued (fst (run_relay (newRelay c) ops)) \<and>
   subseq (enqueued (fst (run_relay r ops))) (pushed ops) \<and>
   refused (fst (run_relay r ops)) = overflowing r ops \<and>
   mset (pushed ops) = mset (enqueued (fst (run_relay r ops))) + mset (overflowing r ops)"
proof -
  have "slots (newRelay c :: 'a relay) = []"
    by (simp add: newRelay_def)
  with run_relay_fifo [of "newRelay c" ops]
  have "popped (fst (run_relay (newRelay c) ops)) @ slots (snd (run_relay (newRelay c) ops)) =
     enqueued (fst (run_relay (newRelay c) ops))"
    by simp
  moreover have "mset (pushed ops) =
      mset (enqueued (fst (run_relay r ops))) + mset (overflowing r ops)"
    using run_relay_pushed_mset [of ops r] by (simp add: run_relay_refused)
  ultimately show ?thesis
    by (simp add: run_relay_fifo run_relay_enqueued_subseq run_relay_refused)
qed

text \<open>
  After any sequence of operations on a new relay, \<open>tryPop\<close> returns the oldest enqueued
  buffer that has not been popped yet, and the empty optional when there is none.
\<close>

lemma run_relay_tryPop_oldest:
  "fst (tryPop (snd (run_relay (newRelay c) ops))) =
     (if length (popped (fst (run_relay (newRelay c) ops)))
           < length (enqueued (fst (run_relay (newRelay c) ops)))
      then Some (enqueued (fst (run_relay (newRelay c) ops))
                   ! length (popped (fst (run_relay (newRelay c) ops))))
      else None)"
proof -
  have "popped (fst (run_relay (newRelay c) ops)) @ slots (snd (run_relay (newRelay c) ops)) =
     enqueued (fst (run_relay (newRelay c) ops))"
    using run_relay_fifo [of "newRelay c" ops] by (simp add: newRelay_def)
  then show ?thesis
    by (rule tryPop_oldest)
qed

end
